theory Spec2Isabelle
  imports Complex_Main
begin

section \<open>The operating system as seen by helpers.py\<close>

text \<open>
  helpers.py reads the file system through \<^verbatim>\<open>os.path\<close> and the platform through
  \<^verbatim>\<open>platform.system()\<close>. These functions are not part of the module; they are
  parameters of the model. \<open>platform_is_windows\<close> stands for
  \<^verbatim>\<open>platform.system().lower().startswith("windows")\<close>.
\<close>

record os_iface =
  isfile :: "string \<Rightarrow> bool"
  abspath :: "string \<Rightarrow> string"
  expanduser :: "string \<Rightarrow> string"
  path_join :: "string \<Rightarrow> string \<Rightarrow> string"
  platform_is_windows :: bool
  path_exists :: "string \<Rightarrow> bool"
  realpath :: "string \<Rightarrow> string"
  normcase :: "string \<Rightarrow> string"

text \<open>The exceptions that leave the functions modelled here.\<close>

datatype error = AssertionError | IOError string

section \<open>SanitizerConfig\<close>

subsection \<open>The tokenizer\<close>

text \<open>
  \<^verbatim>\<open>re_delim = re.compile(r":(?![\\|/])")\<close>: a colon, with a negative lookahead for
  one of the three characters backslash, pipe and slash. The character class is
  \<open>is_path_sep\<close>; \<open>re_delim c rest\<close> says that the pattern matches at a character
  \<open>c\<close> whose right context is \<open>rest\<close>.
\<close>

definition is_path_sep :: "char \<Rightarrow> bool" where
  "is_path_sep c = (c = CHR 0x5C \<or> c = CHR ''|'' \<or> c = CHR ''/'')"

definition re_delim :: "char \<Rightarrow> string \<Rightarrow> bool" where
  "re_delim c rest =
     (c = CHR '':'' \<and> \<not> (case rest of [] \<Rightarrow> False | n # _ \<Rightarrow> is_path_sep n))"

text \<open>
  Splitting at every match of a one-character pattern, as \<^verbatim>\<open>re.split\<close> and
  \<^verbatim>\<open>str.split(sep)\<close> do: a left-to-right scan that closes the current piece
  \<open>cur\<close> at each match. The pieces between two adjacent matches, before a leading
  match and after a trailing one are empty strings, as in Python.
\<close>

fun split_where :: "(char \<Rightarrow> string \<Rightarrow> bool) \<Rightarrow> string \<Rightarrow> string \<Rightarrow> string list" where
  "split_where d cur [] = [cur]"
| "split_where d cur (c # cs) =
     (if d c cs then cur # split_where d [] cs else split_where d (cur @ [c]) cs)"

definition re_delim_split :: "string \<Rightarrow> string list" where
  "re_delim_split s = split_where re_delim [] s"

definition str_split_eq :: "string \<Rightarrow> string list" where
  "str_split_eq s = split_where (\<lambda>c _. c = CHR ''='') [] s"

text \<open>\<^verbatim>\<open>sep.join(xs)\<close>.\<close>

fun str_join :: "string \<Rightarrow> string list \<Rightarrow> string" where
  "str_join sep [] = []"
| "str_join sep [x] = x"
| "str_join sep (x # y # ys) = x @ sep @ str_join sep (y # ys)"

subsection \<open>The option store\<close>

text \<open>
  \<^verbatim>\<open>self._options\<close> is a dict from option names to values. It is modelled as an
  association list with one entry per key, in insertion order (the iteration order of
  a Python dict): \<open>dict_set\<close> is the assignment \<^verbatim>\<open>d[k] = v\<close>, which replaces the value
  of a key in place and appends a new key at the end.
\<close>

fun dict_set :: "'k \<Rightarrow> 'v \<Rightarrow> ('k \<times> 'v) list \<Rightarrow> ('k \<times> 'v) list" where
  "dict_set k v [] = [(k, v)]"
| "dict_set k v ((k', v') # xs) =
     (if k = k' then (k, v) # xs else (k', v') # dict_set k v xs)"

record SanitizerConfig =
  opts :: "(string \<times> string) list"

definition init :: SanitizerConfig where
  "init = \<lparr>opts = []\<rparr>"

definition add :: "string \<Rightarrow> string \<Rightarrow> bool \<Rightarrow> SanitizerConfig \<Rightarrow> SanitizerConfig" where
  "add key v overwrite self =
     (if key \<notin> fst ` set (opts self) \<or> overwrite
      then self\<lparr>opts := dict_set key v (opts self)\<rparr>
      else self)"

text \<open>
  \<^verbatim>\<open>opt_name, opt_value = option.split("=")\<close> raises ValueError unless the split has
  exactly two pieces; \<open>None\<close> is that ValueError.
\<close>

definition unpack_option :: "string \<Rightarrow> (string \<times> string) option" where
  "unpack_option option =
     (case str_split_eq option of [opt_name, opt_value] \<Rightarrow> Some (opt_name, opt_value) | _ \<Rightarrow> None)"

text \<open>
  The loop of \<^verbatim>\<open>load_options\<close> over the tokens. A ValueError is caught inside the loop
  (a warning is logged and the loop goes on with the next token); the IOError of a
  missing suppressions file is not caught and ends the loop. The result is the store as
  the loop leaves it, and the exception that left the loop, if any.
\<close>

fun load_tokens ::
  "os_iface \<Rightarrow> string list \<Rightarrow> SanitizerConfig \<Rightarrow> SanitizerConfig \<times> error option" where
  "load_tokens os [] self = (self, None)"
| "load_tokens os (option # rest) self =
     (case unpack_option option of
        None \<Rightarrow> load_tokens os rest self
      | Some (opt_name, opt_value) \<Rightarrow>
          if opt_name = ''suppressions'' then
            (let opt_value = abspath os (expanduser os opt_value) in
             if \<not> isfile os opt_value then (self, Some (IOError opt_value))
             else load_tokens os rest (self\<lparr>opts := dict_set opt_name opt_value (opts self)\<rparr>))
          else load_tokens os rest (self\<lparr>opts := dict_set opt_name opt_value (opts self)\<rparr>))"

definition load_options ::
  "os_iface \<Rightarrow> (string \<rightharpoonup> string) \<Rightarrow> string \<Rightarrow> SanitizerConfig \<Rightarrow> SanitizerConfig \<times> error option"
where
  "load_options os env key self =
     (case env key of
        None \<Rightarrow> (self, None)
      | Some s \<Rightarrow>
          if CHR '' '' \<in> set s then (self, Some AssertionError)
          else load_tokens os (re_delim_split s) self)"

definition options :: "SanitizerConfig \<Rightarrow> string" where
  "options self = str_join '':'' (map (\<lambda>(k, v). str_join ''='' [k, v]) (opts self))"

section \<open>The environment of the browser\<close>

text \<open>
  The process environment is a dict from variable names to strings; only lookups and
  assignments by key are made, so it is a map. \<open>quoted\<close> is the format
  \<^verbatim>\<open>"'%s'" % log_path\<close>.
\<close>

type_synonym environment = "string \<rightharpoonup> string"

definition quoted :: "string \<Rightarrow> string" where
  "quoted s = [CHR 0x27] @ s @ [CHR 0x27]"

text \<open>
  The options that \<^verbatim>\<open>configure_sanitizers\<close> adds to each of the three stores after
  loading it (lines 98 to 110, 117 to 118 and 124 to 125 of helpers.py), in the order of
  the calls.
\<close>

definition asan_defaults :: "string \<Rightarrow> SanitizerConfig \<Rightarrow> SanitizerConfig" where
  "asan_defaults log_path asan_config =
     (let asan_config = add ''abort_on_error'' ''true'' False asan_config;
          asan_config = add ''allocator_may_return_null'' ''true'' False asan_config;
          asan_config = add ''check_initialization_order'' ''true'' False asan_config;
          asan_config = add ''detect_leaks'' ''false'' False asan_config;
          asan_config = add ''disable_coredump'' ''true'' False asan_config;
          asan_config = add ''log_path'' (quoted log_path) True asan_config;
          asan_config = add ''sleep_before_dying'' ''0'' False asan_config;
          asan_config = add ''strict_init_order'' ''true'' False asan_config;
          asan_config = add ''symbolize'' ''true'' False asan_config
      in asan_config)"

definition lsan_defaults :: "SanitizerConfig \<Rightarrow> SanitizerConfig" where
  "lsan_defaults lsan_config =
     (let lsan_config = add ''max_leaks'' ''1'' False lsan_config;
          lsan_config = add ''print_suppressions'' ''false'' False lsan_config
      in lsan_config)"

definition ubsan_defaults :: "string \<Rightarrow> SanitizerConfig \<Rightarrow> SanitizerConfig" where
  "ubsan_defaults log_path ubsan_config =
     (let ubsan_config = add ''log_path'' (quoted log_path) True ubsan_config;
          ubsan_config = add ''print_stacktrace'' ''1'' False ubsan_config
      in ubsan_config)"

text \<open>
  The last part of \<^verbatim>\<open>configure_sanitizers\<close> (lines 128 to 137). The two warnings
  only write to the log and are left out, so only the branch that sets the variable
  changes anything.
\<close>

definition set_symbolizer :: "os_iface \<Rightarrow> string \<Rightarrow> environment \<Rightarrow> environment" where
  "set_symbolizer os target_dir env =
     (if env ''ASAN_SYMBOLIZER_PATH'' = None then
        (if \<not> platform_is_windows os then
           (let symbolizer_bin = path_join os target_dir ''llvm-symbolizer''
            in if isfile os symbolizer_bin
               then env(''ASAN_SYMBOLIZER_PATH'' \<mapsto> symbolizer_bin)
               else env)
         else env)
      else env)"

text \<open>
  \<^verbatim>\<open>configure_sanitizers\<close> updates \<^verbatim>\<open>env\<close> in place; the model returns the updated
  environment, or the exception raised by \<^verbatim>\<open>load_options\<close>.
\<close>

definition configure_sanitizers ::
  "os_iface \<Rightarrow> environment \<Rightarrow> string \<Rightarrow> string \<Rightarrow> error + environment" where
  "configure_sanitizers os env target_dir log_path =
     (case load_options os env ''ASAN_OPTIONS'' init of
        (_, Some e) \<Rightarrow> Inl e
      | (asan_config, None) \<Rightarrow>
         (let env = env(''ASAN_OPTIONS'' \<mapsto> options (asan_defaults log_path asan_config))
          in case load_options os env ''LSAN_OPTIONS'' init of
               (_, Some e) \<Rightarrow> Inl e
             | (lsan_config, None) \<Rightarrow>
                (let env = env(''LSAN_OPTIONS'' \<mapsto> options (lsan_defaults lsan_config))
                 in case load_options os env ''UBSAN_OPTIONS'' init of
                      (_, Some e) \<Rightarrow> Inl e
                    | (ubsan_config, None) \<Rightarrow>
                       (let env = env(''UBSAN_OPTIONS'' \<mapsto>
                                        options (ubsan_defaults log_path ubsan_config))
                        in Inr (set_symbolizer os target_dir env)))))"

text \<open>
  \<^verbatim>\<open>env_mod\<close> is a dict whose values are strings or \<^verbatim>\<open>None\<close>; its items are taken in
  iteration order. A string sets the variable, \<^verbatim>\<open>None\<close> deletes it when present.
\<close>

fun apply_env_mod :: "(string \<times> string option) list \<Rightarrow> environment \<Rightarrow> environment" where
  "apply_env_mod [] env = env"
| "apply_env_mod ((env_name, env_value) # rest) env =
     (case env_value of
        Some v \<Rightarrow> apply_env_mod rest (env(env_name \<mapsto> v))
      | None \<Rightarrow>
          if env env_name \<noteq> None then apply_env_mod rest (env(env_name := None))
          else apply_env_mod rest env)"

text \<open>
  \<^verbatim>\<open>prepare_environment\<close>; \<open>environ\<close> is \<^verbatim>\<open>os.environ\<close> at the time of the call.
\<close>

definition prepare_environment ::
  "os_iface \<Rightarrow> environment \<Rightarrow> string \<Rightarrow> string \<Rightarrow> (string \<times> string option) list option
     \<Rightarrow> error + environment" where
  "prepare_environment os environ target_dir sanitizer_log env_mod =
     (let env = environ;
          env = env(''G_SLICE'' \<mapsto> ''always-malloc'');
          env = env(''MOZ_CC_RUN_DURING_SHUTDOWN'' \<mapsto> ''1'');
          env = env(''MOZ_CRASHREPORTER'' \<mapsto> ''1'');
          env = env(''MOZ_CRASHREPORTER_NO_REPORT'' \<mapsto> ''1'');
          env = env(''MOZ_DISABLE_CONTENT_SANDBOX'' \<mapsto> ''1'');
          env = env(''MOZ_DISABLE_GMP_SANDBOX'' \<mapsto> ''1'');
          env = env(''MOZ_DISABLE_GPU_SANDBOX'' \<mapsto> ''1'');
          env = env(''MOZ_DISABLE_NPAPI_SANDBOX'' \<mapsto> ''1'');
          env = env(''MOZ_GDB_SLEEP'' \<mapsto> ''0'');
          env = env(''XRE_NO_WINDOWS_CRASH_DIALOG'' \<mapsto> ''1'');
          env = env(''XPCOM_DEBUG_BREAK'' \<mapsto> ''warn'');
          env = (if env ''MOZ_SKIA_DISABLE_ASSERTS'' = None
                 then env(''MOZ_SKIA_DISABLE_ASSERTS'' \<mapsto> ''1'') else env);
          env = (if env ''RUST_BACKTRACE'' = None
                 then env(''RUST_BACKTRACE'' \<mapsto> ''full'') else env)
      in case configure_sanitizers os env target_dir sanitizer_log of
           Inl e \<Rightarrow> Inl e
         | Inr env \<Rightarrow>
             Inr (case env_mod of None \<Rightarrow> env | Some m \<Rightarrow> apply_env_mod m env))"

section \<open>Waiting for files to be closed\<close>

text \<open>
  \<^verbatim>\<open>wait_on_files\<close> reads the clock and the process table through \<^verbatim>\<open>time\<close> and
  \<^verbatim>\<open>psutil\<close>. What they answer is a parameter of the model: \<open>clock0\<close> is the value
  of \<^verbatim>\<open>time.time()\<close> at the start, \<open>process pid\<close> is the exception raised by
  \<^verbatim>\<open>psutil.Process(pid)\<close> if any, and \<open>polls i\<close> holds the answers given during
  pass \<open>i\<close> of the loop: those of \<^verbatim>\<open>proc.is_running()\<close>,
  \<^verbatim>\<open>proc.children(recursive=True)\<close>, \<^verbatim>\<open>target.open_files()\<close> for each target, and
  \<^verbatim>\<open>time.time()\<close>. Every run of the code is the run of the model on some such world.
  Times are rational numbers.
\<close>

datatype psutil_error = AccessDenied | NoSuchProcess

record poll =
  is_running :: "psutil_error + bool"
  children :: "psutil_error + nat list"
  open_files :: "nat \<Rightarrow> psutil_error + string list"
  time_now :: rat

record world =
  clock0 :: rat
  process :: "nat \<Rightarrow> psutil_error option"
  polls :: "nat \<Rightarrow> poll"

text \<open>The calls made to the outside, in the order in which they are made.\<close>

datatype event =
    EvTime
  | EvExists string
  | EvNormalize string
  | EvProcess nat
  | EvIsRunning
  | EvChildren
  | EvOpenFiles nat
  | EvSleep rat

fun is_sleep :: "event \<Rightarrow> bool" where
  "is_sleep (EvSleep _) = True"
| "is_sleep _ = False"

fun is_enumeration :: "event \<Rightarrow> bool" where
  "is_enumeration EvChildren = True"
| "is_enumeration (EvOpenFiles _) = True"
| "is_enumeration _ = False"

definition normalize :: "os_iface \<Rightarrow> string \<Rightarrow> string" where
  "normalize os x = normcase os (realpath os x)"

text \<open>
  One pass of the loop body up to the test: the targets are the process and, if
  \<^verbatim>\<open>recursive\<close>, its descendants (none when listing them raises); a target whose
  \<^verbatim>\<open>open_files()\<close> raises contributes no file.
\<close>

definition poll_targets :: "poll \<Rightarrow> nat \<Rightarrow> bool \<Rightarrow> nat list" where
  "poll_targets p pid recursive =
     pid # (if recursive then (case children p of Inl _ \<Rightarrow> [] | Inr cs \<Rightarrow> cs) else [])"

definition poll_open_files :: "os_iface \<Rightarrow> poll \<Rightarrow> nat \<Rightarrow> bool \<Rightarrow> string list" where
  "poll_open_files os p pid recursive =
     map (normalize os)
       (remdups (concat (map (\<lambda>target. case open_files p target of Inl _ \<Rightarrow> [] | Inr fs \<Rightarrow> fs)
                           (poll_targets p pid recursive))))"

definition poll_events :: "poll \<Rightarrow> nat \<Rightarrow> bool \<Rightarrow> event list" where
  "poll_events p pid recursive =
     (if recursive then [EvChildren] else [])
       @ map EvOpenFiles (poll_targets p pid recursive)
       @ map EvNormalize
           (remdups (concat (map (\<lambda>target. case open_files p target of Inl _ \<Rightarrow> [] | Inr fs \<Rightarrow> fs)
                               (poll_targets p pid recursive))))"

text \<open>
  \<^verbatim>\<open>any(x for x in open_files if x in wait_files)\<close>: \<^verbatim>\<open>any\<close> tests the truth value
  of the paths themselves, and the empty string is false.
\<close>

definition any_watched_open :: "string list \<Rightarrow> string list \<Rightarrow> bool" where
  "any_watched_open open_fs wait_files = (\<exists>x \<in> set open_fs. x \<in> set wait_files \<and> x \<noteq> [])"

text \<open>
  The \<^verbatim>\<open>while\<close> loop, from pass \<open>i\<close> on. The loop may go on for ever (when the clock
  does not reach \<open>wait_end\<close>), so it is run on fuel: \<open>None\<close> means that the fuel was used
  up before the loop was left. Otherwise the result is \<open>Inl e\<close> for an exception that
  leaves the loop, \<open>Inr False\<close> for \<^verbatim>\<open>return False\<close> and \<open>Inr True\<close> when the
  loop ends normally or by \<^verbatim>\<open>break\<close>, together with the calls made.
\<close>

fun poll_loop ::
  "os_iface \<Rightarrow> (nat \<Rightarrow> poll) \<Rightarrow> nat \<Rightarrow> string list \<Rightarrow> rat \<Rightarrow> bool \<Rightarrow> rat \<Rightarrow> nat \<Rightarrow> nat
     \<Rightarrow> ((psutil_error + bool) \<times> event list) option" where
  "poll_loop os ps pid wait_files poll_rate recursive wait_end i 0 = None"
| "poll_loop os ps pid wait_files poll_rate recursive wait_end i (Suc fuel) =
     (case is_running (ps i) of
        Inl e \<Rightarrow> Some (Inl e, [EvIsRunning])
      | Inr running \<Rightarrow>
          if \<not> (running \<and> wait_files \<noteq> []) then Some (Inr True, [EvIsRunning])
          else
            (let evs = EvIsRunning # poll_events (ps i) pid recursive
             in if \<not> any_watched_open (poll_open_files os (ps i) pid recursive) wait_files
                then Some (Inr True, evs)
                else if wait_end \<le> time_now (ps i) then Some (Inr False, evs @ [EvTime])
                else map_option (\<lambda>(r, evs'). (r, evs @ [EvTime, EvSleep poll_rate] @ evs'))
                       (poll_loop os ps pid wait_files poll_rate recursive wait_end (Suc i) fuel)))"

text \<open>
  \<^verbatim>\<open>wait_on_files\<close>. The three assertions come first; an exception of psutil that
  leaves the \<^verbatim>\<open>try\<close> block is caught and the function returns \<^verbatim>\<open>True\<close>.
\<close>

definition wait_on_files ::
  "os_iface \<Rightarrow> world \<Rightarrow> nat \<Rightarrow> string list \<Rightarrow> rat \<Rightarrow> bool \<Rightarrow> rat \<Rightarrow> nat
     \<Rightarrow> ((error + bool) \<times> event list) option" where
  "wait_on_files os w pid wait_files poll_rate recursive timeout fuel =
     (if \<not> poll_rate \<ge> 0 then Some (Inl AssertionError, [])
      else if \<not> timeout \<ge> 0 then Some (Inl AssertionError, [])
      else if \<not> poll_rate \<le> timeout then Some (Inl AssertionError, [])
      else
        (let wait_end = clock0 w + timeout;
             evs = EvTime # concat (map (\<lambda>x. if path_exists os x then [EvExists x, EvNormalize x]
                                               else [EvExists x]) wait_files);
             wait_files = map (normalize os) (filter (path_exists os) wait_files);
             evs = evs @ [EvProcess pid]
         in case process w pid of
              Some e \<Rightarrow> Some (Inr True, evs)
            | None \<Rightarrow>
               (case poll_loop os (polls w) pid wait_files poll_rate recursive wait_end 0 fuel of
                  None \<Rightarrow> None
                | Some (Inl e, evs') \<Rightarrow> Some (Inr True, evs @ evs')
                | Some (Inr b, evs') \<Rightarrow> Some (Inr b, evs @ evs'))))"

section \<open>Notions used to state the properties\<close>

text \<open>
  The places of a string where the tokenizer cuts, by index: a colon that is not
  immediately followed by a backslash, a pipe or a slash. \<open>cut_at bs off s\<close> is the list
  of the pieces of \<open>s\<close> from \<open>off\<close> on that lie between the places \<open>bs\<close>, the places
  themselves left out.
\<close>

definition is_boundary :: "string \<Rightarrow> nat \<Rightarrow> bool" where
  "is_boundary s i =
     (i < length s \<and> s ! i = CHR '':'' \<and> \<not> (Suc i < length s \<and> is_path_sep (s ! Suc i)))"

fun cut_at :: "nat list \<Rightarrow> nat \<Rightarrow> string \<Rightarrow> string list" where
  "cut_at [] off s = [drop off s]"
| "cut_at (b # bs) off s = take (b - off) (drop off s) # cut_at bs (Suc b) s"

text \<open>
  The rule with an escape marker: a colon that is neither immediately preceded by a
  backslash nor immediately followed by a backslash, a pipe or a slash.
\<close>

definition is_boundary_escaped :: "string \<Rightarrow> nat \<Rightarrow> bool" where
  "is_boundary_escaped s i =
     (i < length s \<and> s ! i = CHR '':'' \<and> \<not> (0 < i \<and> s ! (i - 1) = CHR 0x5C)
        \<and> \<not> (Suc i < length s \<and> is_path_sep (s ! Suc i)))"

text \<open>
  Strings in which the tokenizer finds nothing to cut: \<open>no_delim s\<close> says that the
  pattern \<^verbatim>\<open>re_delim\<close> matches nowhere in \<open>s\<close> (every colon of \<open>s\<close> is immediately
  followed by a backslash, a pipe or a slash), and \<open>starts_sep s\<close> that \<open>s\<close> begins
  with one of these three characters.
\<close>

definition starts_sep :: "string \<Rightarrow> bool" where
  "starts_sep s = (case s of [] \<Rightarrow> False | c # _ \<Rightarrow> is_path_sep c)"

fun no_delim :: "string \<Rightarrow> bool" where
  "no_delim [] = True"
| "no_delim (c # cs) = (\<not> re_delim c cs \<and> no_delim cs)"

text \<open>
  A store that is populated only by calls of \<^verbatim>\<open>add\<close>, given as the list of the
  arguments of the calls, in order.
\<close>

definition populate :: "(string \<times> string \<times> bool) list \<Rightarrow> SanitizerConfig" where
  "populate ops = fold (\<lambda>(key, v, overwrite). add key v overwrite) ops init"

text \<open>
  The names and values for which the round trip through the option string is proved:
  a name has no colon, no equals sign and no space and does not begin with a backslash,
  a pipe or a slash; a value has no equals sign, no space and no colon but those
  immediately followed by a backslash, a pipe or a slash; and the value of the option
  \<^verbatim>\<open>suppressions\<close> is the path of an existing file that
  \<^verbatim>\<open>abspath(expanduser(...))\<close> leaves as it is.
\<close>

definition plain_name :: "string \<Rightarrow> bool" where
  "plain_name k =
     (CHR '':'' \<notin> set k \<and> CHR ''='' \<notin> set k \<and> CHR '' '' \<notin> set k \<and> \<not> starts_sep k)"

definition plain_value :: "string \<Rightarrow> bool" where
  "plain_value v = (CHR ''='' \<notin> set v \<and> CHR '' '' \<notin> set v \<and> no_delim v)"

definition addable :: "os_iface \<Rightarrow> string \<Rightarrow> string \<Rightarrow> bool" where
  "addable os k v =
     (plain_name k \<and> plain_value v
      \<and> (if k = ''suppressions'' then abspath os (expanduser os v) = v \<and> isfile os v else True))"

text \<open>
  The same for the entries of a store, whose names come from an option string as well:
  there a name may hold colons that the tokenizer does not cut at, and only the first
  name may begin with a backslash, a pipe or a slash.
\<close>

definition entry_ok :: "os_iface \<Rightarrow> string \<Rightarrow> string \<Rightarrow> bool" where
  "entry_ok os k v =
     (CHR ''='' \<notin> set k \<and> CHR ''='' \<notin> set v \<and> CHR '' '' \<notin> set k \<and> CHR '' '' \<notin> set v
      \<and> no_delim (k @ ''='' @ v)
      \<and> (if k = ''suppressions'' then abspath os (expanduser os v) = v \<and> isfile os v else True))"

definition store_ok :: "os_iface \<Rightarrow> (string \<times> string) list \<Rightarrow> bool" where
  "store_ok os xs =
     (distinct (map fst xs) \<and> list_all (\<lambda>(k, v). entry_ok os k v) xs
      \<and> list_all (\<lambda>(k, v). \<not> starts_sep k) (tl xs))"

text \<open>An operating system for the examples.\<close>

definition os_example :: os_iface where
  "os_example =
     \<lparr>isfile = (\<lambda>p. p = ''/supp.txt''), abspath = (\<lambda>p. p), expanduser = (\<lambda>p. p),
      path_join = (\<lambda>d f. d @ ''/'' @ f), platform_is_windows = False,
      path_exists = (\<lambda>p. p = ''/tmp/f''), realpath = (\<lambda>p. p), normcase = (\<lambda>p. p)\<rparr>"

text \<open>
  The values of the tokens named \<^verbatim>\<open>suppressions\<close> among the tokens \<open>ts\<close>, in order:
  those that \<^verbatim>\<open>load_options\<close> normalizes and checks.
\<close>

definition suppressions_values :: "string list \<Rightarrow> string list" where
  "suppressions_values ts =
     List.map_filter
       (\<lambda>t. case unpack_option t of
               Some (n, v) \<Rightarrow> if n = ''suppressions'' then Some v else None
             | None \<Rightarrow> None) ts"

text \<open>
  The variables that \<^verbatim>\<open>prepare_environment\<close> assigns without looking at the
  environment, with their constants (lines 279 to 289), the two that it assigns only
  when they are absent, with their defaults (lines 292 to 296), and the variables that
  \<^verbatim>\<open>configure_sanitizers\<close> assigns.
\<close>

definition fixed_toggles :: "(string \<times> string) list" where
  "fixed_toggles =
     [(''G_SLICE'', ''always-malloc''),
      (''MOZ_CC_RUN_DURING_SHUTDOWN'', ''1''),
      (''MOZ_CRASHREPORTER'', ''1''),
      (''MOZ_CRASHREPORTER_NO_REPORT'', ''1''),
      (''MOZ_DISABLE_CONTENT_SANDBOX'', ''1''),
      (''MOZ_DISABLE_GMP_SANDBOX'', ''1''),
      (''MOZ_DISABLE_GPU_SANDBOX'', ''1''),
      (''MOZ_DISABLE_NPAPI_SANDBOX'', ''1''),
      (''MOZ_GDB_SLEEP'', ''0''),
      (''XRE_NO_WINDOWS_CRASH_DIALOG'', ''1''),
      (''XPCOM_DEBUG_BREAK'', ''warn'')]"

definition default_toggles :: "(string \<times> string) list" where
  "default_toggles = [(''MOZ_SKIA_DISABLE_ASSERTS'', ''1''), (''RUST_BACKTRACE'', ''full'')]"

definition sanitizer_variables :: "string list" where
  "sanitizer_variables =
     [''ASAN_OPTIONS'', ''LSAN_OPTIONS'', ''UBSAN_OPTIONS'', ''ASAN_SYMBOLIZER_PATH'']"

text \<open>
  A path that can stand as the value of an option: it is a plain value and
  \<^verbatim>\<open>abspath(expanduser(...))\<close> leaves it as it is.
\<close>

definition normal_path :: "os_iface \<Rightarrow> string \<Rightarrow> bool" where
  "normal_path os p = (plain_value p \<and> abspath os (expanduser os p) = p)"

section \<open>Properties of the tokenizer\<close>

text \<open>
  The scan with a non-empty current piece is the scan from the empty piece, with the
  current piece put before its first token.
\<close>

lemma split_where_cur:
  "split_where d cur s = (cur @ hd (split_where d [] s)) # tl (split_where d [] s)"
proof (induction s arbitrary: cur)
  case Nil
  then show ?case by simp
next
  case (Cons c cs)
  show ?case
  proof (cases "d c cs")
    case True
    then show ?thesis by simp
  next
    case False
    have "split_where d (cur @ [c]) cs
        = ((cur @ [c]) @ hd (split_where d [] cs)) # tl (split_where d [] cs)"
      by (rule Cons.IH)
    moreover have "split_where d [c] cs
        = ([c] @ hd (split_where d [] cs)) # tl (split_where d [] cs)"
      using Cons.IH [of "[c]"] by simp
    ultimately show ?thesis using False by simp
  qed
qed

lemma cut_at_shift: "cut_at (map Suc bs) (Suc off) (c # s) = cut_at bs off s"
  by (induction bs arbitrary: off) simp_all

lemma cut_at_cons0:
  "cut_at (map Suc bs) 0 (c # s) = (c # hd (cut_at bs 0 s)) # tl (cut_at bs 0 s)"
  by (cases bs) (simp_all add: cut_at_shift)

lemma filter_upt_Suc:
  "filter P [0..<Suc n] = (if P 0 then [0] else []) @ map Suc (filter (\<lambda>i. P (Suc i)) [0..<n])"
proof -
  have "[0..<Suc n] = 0 # map Suc [0..<n]"
    by (simp add: upt_conv_Cons map_Suc_upt del: upt_Suc)
  then show ?thesis by (simp add: filter_map comp_def del: upt_Suc)
qed

lemma split_where_cut_at:
  "split_where d [] s = cut_at (filter (\<lambda>i. d (s ! i) (drop (Suc i) s)) [0..<length s]) 0 s"
proof (induction s)
  case Nil
  then show ?case by simp
next
  case (Cons c cs)
  let ?bs = "filter (\<lambda>i. d (cs ! i) (drop (Suc i) cs)) [0..<length cs]"
  have pos: "filter (\<lambda>i. d ((c # cs) ! i) (drop (Suc i) (c # cs))) [0..<length (c # cs)]
      = (if d c cs then [0] else []) @ map Suc ?bs"
    by (simp add: filter_upt_Suc del: upt_Suc)
  show ?case
  proof (cases "d c cs")
    case True
    then show ?thesis
      unfolding pos using Cons.IH by (simp add: cut_at_shift)
  next
    case False
    have "split_where d [] (c # cs) = split_where d [c] cs"
      using False by simp
    also have "\<dots> = (c # hd (split_where d [] cs)) # tl (split_where d [] cs)"
      using split_where_cur [of d "[c]" cs] by simp
    also have "\<dots> = cut_at (map Suc ?bs) 0 (c # cs)"
      using Cons.IH by (simp add: cut_at_cons0)
    finally show ?thesis unfolding pos using False by simp
  qed
qed

lemma re_delim_is_boundary:
  assumes "i < length s"
  shows "re_delim (s ! i) (drop (Suc i) s) = is_boundary s i"
proof (cases "drop (Suc i) s")
  case Nil
  with assms show ?thesis by (simp add: re_delim_def is_boundary_def)
next
  case (Cons n rest)
  then have "Suc i < length s" and "s ! Suc i = n"
    by (auto simp: nth_via_drop intro: ccontr)
  with Cons show ?thesis by (simp add: re_delim_def is_boundary_def)
qed

text \<open>
  C2 (as amended). The tokens that \<^verbatim>\<open>load_options\<close> gets from \<^verbatim>\<open>re_delim.split\<close>
  are the pieces of the input between the colons that are not immediately followed by a
  backslash, a pipe or a slash: every such colon is a token boundary, whatever precedes
  it, and nothing else is.
\<close>

theorem re_delim_split_boundaries:
  "re_delim_split s = cut_at (filter (is_boundary s) [0..<length s]) 0 s"
proof -
  have "filter (\<lambda>i. re_delim (s ! i) (drop (Suc i) s)) [0..<length s]
      = filter (is_boundary s) [0..<length s]"
    by (rule filter_cong) (simp_all add: re_delim_is_boundary)
  then show ?thesis
    by (simp add: re_delim_split_def split_where_cut_at)
qed

text \<open>
  C2 (as stated) fails: in the four characters a, backslash, colon, b the colon is
  immediately preceded by a backslash, and the tokenizer still cuts there. Cutting by
  the rule with the escape marker would leave the string whole.
\<close>

theorem re_delim_split_escape_counterexample:
  "re_delim_split [CHR ''a'', CHR 0x5C, CHR '':'', CHR ''b''] = [[CHR ''a'', CHR 0x5C], ''b'']
   \<and> cut_at (filter (is_boundary_escaped [CHR ''a'', CHR 0x5C, CHR '':'', CHR ''b'']) [0..<4]) 0
        [CHR ''a'', CHR 0x5C, CHR '':'', CHR ''b'']
      = [[CHR ''a'', CHR 0x5C, CHR '':'', CHR ''b'']]"
  by (simp add: re_delim_split_def re_delim_def is_path_sep_def is_boundary_escaped_def
        upt_conv_Cons)

section \<open>The round trip through the option string\<close>

text \<open>
  A string without a match of the pattern is not cut, also when a colon or the end of
  the input follows it; so the tokenizer gives back the tokens that were joined.
\<close>

lemma re_delim_append:
  assumes "\<not> re_delim c t" and "rest = [] \<or> hd rest = CHR '':''"
  shows "\<not> re_delim c (t @ rest)"
proof (cases t)
  case Nil
  with assms show ?thesis by (cases rest) (auto simp: re_delim_def is_path_sep_def)
next
  case (Cons x xs)
  with assms show ?thesis by (simp add: re_delim_def)
qed

lemma split_where_no_delim:
  assumes "no_delim t" and "rest = [] \<or> hd rest = CHR '':''"
  shows "split_where re_delim cur (t @ rest) = split_where re_delim (cur @ t) rest"
  using assms
proof (induction t arbitrary: cur)
  case Nil
  then show ?case by simp
next
  case (Cons c t)
  then have "\<not> re_delim c (t @ rest)" by (simp add: re_delim_append)
  with Cons show ?case by simp
qed

lemma starts_sep_join:
  "\<not> starts_sep t \<Longrightarrow> \<not> starts_sep (str_join '':'' (t # ts))"
  by (cases ts; cases t) (simp_all add: starts_sep_def is_path_sep_def)

lemma re_delim_split_join:
  assumes "\<forall>t \<in> set ts. no_delim t" and "\<forall>t \<in> set (tl ts). \<not> starts_sep t" and "ts \<noteq> []"
  shows "split_where re_delim cur (str_join '':'' ts) = (cur @ hd ts) # tl ts"
  using assms
proof (induction ts arbitrary: cur)
  case Nil
  then show ?case by simp
next
  case (Cons t ts)
  show ?case
  proof (cases ts)
    case Nil
    with Cons.prems show ?thesis
      using split_where_no_delim [of t "[]" cur] by simp
  next
    case (Cons u us)
    let ?rest = "str_join '':'' (u # us)"
    have nd: "no_delim t" using Cons.prems by simp
    have "\<not> starts_sep u" using Cons.prems Cons by simp
    then have "\<not> starts_sep ?rest" by (rule starts_sep_join)
    then have delim: "re_delim CHR '':'' ?rest"
      by (auto simp: re_delim_def starts_sep_def split: list.splits)
    have "split_where re_delim cur (t @ CHR '':'' # ?rest)
        = split_where re_delim (cur @ t) (CHR '':'' # ?rest)"
      using nd by (rule split_where_no_delim) simp
    also have "\<dots> = (cur @ t) # split_where re_delim [] ?rest"
      using delim by simp
    also have "split_where re_delim [] ?rest = ([] @ hd (u # us)) # tl (u # us)"
      using Cons.prems Cons by (intro Cons.IH [unfolded Cons]) auto
    finally show ?thesis using Cons by simp
  qed
qed


lemma split_where_char_absent:
  "x \<notin> set s \<Longrightarrow> split_where (\<lambda>c _. c = x) cur s = [cur @ s]"
  by (induction s arbitrary: cur) auto

lemma split_where_char_first:
  "x \<notin> set k \<Longrightarrow> split_where (\<lambda>c _. c = x) cur (k @ x # v) = (cur @ k) # split_where (\<lambda>c _. c = x) [] v"
  by (induction k arbitrary: cur) auto

lemma unpack_option_join:
  "CHR ''='' \<notin> set k \<Longrightarrow> CHR ''='' \<notin> set v \<Longrightarrow> unpack_option (k @ CHR ''='' # v) = Some (k, v)"
  by (simp add: unpack_option_def str_split_eq_def split_where_char_first split_where_char_absent)

lemma unpack_option_empty: "unpack_option [] = None"
  by (simp add: unpack_option_def str_split_eq_def)

lemma dict_set_new: "k \<notin> fst ` set xs \<Longrightarrow> dict_set k v xs = xs @ [(k, v)]"
  by (induction xs) auto

lemma load_tokens_entries:
  assumes "distinct (map fst xs)" and "fst ` set xs \<inter> fst ` set (opts self) = {}"
    and "list_all (\<lambda>(k, v). entry_ok os k v) xs"
  shows "load_tokens os (map (\<lambda>(k, v). str_join ''='' [k, v]) xs) self
           = (self\<lparr>opts := opts self @ xs\<rparr>, None)"
  using assms
proof (induction xs arbitrary: self)
  case Nil
  then show ?case by simp
next
  case (Cons x xs)
  obtain k v where x: "x = (k, v)" by (cases x)
  have ok: "entry_ok os k v" using Cons.prems x by simp
  then have unpack: "unpack_option (k @ CHR ''='' # v) = Some (k, v)"
    by (simp add: entry_ok_def unpack_option_join)
  have new: "k \<notin> fst ` set (opts self)" using Cons.prems x by auto
  let ?self' = "self\<lparr>opts := opts self @ [(k, v)]\<rparr>"
  have step: "load_tokens os (map (\<lambda>(k, v). str_join ''='' [k, v]) (x # xs)) self
      = load_tokens os (map (\<lambda>(k, v). str_join ''='' [k, v]) xs) ?self'"
    using ok unpack new x by (auto simp: entry_ok_def dict_set_new)
  have "fst ` set xs \<inter> fst ` set (opts ?self') = {}"
    using Cons.prems x by auto
  then have "load_tokens os (map (\<lambda>(k, v). str_join ''='' [k, v]) xs) ?self'
      = (?self'\<lparr>opts := opts ?self' @ xs\<rparr>, None)"
    using Cons.prems by (intro Cons.IH) simp_all
  with step x show ?case by simp
qed

lemma set_str_join: "set (str_join sep ts) \<subseteq> set sep \<union> \<Union> (set ` set ts)"
  by (induction sep ts rule: str_join.induct) auto

lemma options_no_space:
  assumes "list_all (\<lambda>(k, v). entry_ok os k v) (opts self)"
  shows "CHR '' '' \<notin> set (options self)"
proof
  assume "CHR '' '' \<in> set (options self)"
  then have "CHR '' '' \<in> set '':'' \<union> \<Union> (set ` set (map (\<lambda>(k, v). str_join ''='' [k, v]) (opts self)))"
    unfolding options_def using set_str_join by blast
  then obtain k v where "(k, v) \<in> set (opts self)" and "CHR '' '' \<in> set (k @ ''='' @ v)"
    by auto
  with assms show False by (auto simp: list_all_iff entry_ok_def)
qed

lemma load_options_roundtrip:
  assumes "store_ok os (opts self)"
  shows "load_options os [key \<mapsto> options self] key init = (self, None)"
proof (cases "opts self")
  case Nil
  then show ?thesis
    by (simp add: load_options_def options_def re_delim_split_def unpack_option_empty init_def)
next
  case (Cons x xs)
  let ?ts = "map (\<lambda>(k, v). str_join ''='' [k, v]) (opts self)"
  have all: "list_all (\<lambda>(k, v). entry_ok os k v) (opts self)"
    and dist: "distinct (map fst (opts self))"
    and tail: "list_all (\<lambda>(k, v). \<not> starts_sep k) (tl (opts self))"
    using assms by (simp_all add: store_ok_def)
  have nd: "\<forall>t \<in> set ?ts. no_delim t"
    using all by (auto simp: list_all_iff entry_ok_def)
  have "\<forall>(k, v) \<in> set (tl (opts self)). \<not> starts_sep (k @ ''='' @ v)"
    using tail by (auto simp: list_all_iff starts_sep_def is_path_sep_def split: list.splits)
  then have ns: "\<forall>t \<in> set (tl ?ts). \<not> starts_sep t"
    by (auto simp: map_tl [symmetric])
  have ne: "?ts \<noteq> []" using Cons by simp
  have "re_delim_split (options self) = ([] @ hd ?ts) # tl ?ts"
    unfolding re_delim_split_def options_def using nd ns ne by (rule re_delim_split_join)
  then have split: "re_delim_split (options self) = ?ts" using ne by simp
  have "load_tokens os ?ts init = (init\<lparr>opts := opts init @ opts self\<rparr>, None)"
    using dist _ all by (rule load_tokens_entries) (simp add: init_def)
  then show ?thesis
    using split options_no_space [OF all] by (simp add: load_options_def init_def)
qed


lemma set_dict_set: "set (dict_set k v xs) \<subseteq> insert (k, v) (set xs)"
  by (induction xs) (auto split: if_splits)

lemma map_fst_dict_set:
  "map fst (dict_set k v xs) = (if k \<in> set (map fst xs) then map fst xs else map fst xs @ [k])"
  by (induction xs) (force simp: image_iff)+


lemma distinct_dict_set: "distinct (map fst xs) \<Longrightarrow> distinct (map fst (dict_set k v xs))"
  by (simp add: map_fst_dict_set)

lemma list_all_dict_set: "P (k, v) \<Longrightarrow> list_all P xs \<Longrightarrow> list_all P (dict_set k v xs)"
  by (induction xs) auto

lemma tl_dict_set:
  "P (k, v) \<Longrightarrow> list_all P (tl xs) \<Longrightarrow> list_all P (tl (dict_set k v xs))"
  by (cases xs) (auto simp: list_all_dict_set)

lemma map_of_dict_set: "map_of (dict_set k v xs) = (map_of xs)(k \<mapsto> v)"
  by (induction xs) auto

lemma store_ok_dict_set:
  assumes "store_ok os xs" and "entry_ok os k v" and "\<not> starts_sep k"
  shows "store_ok os (dict_set k v xs)"
  using assms unfolding store_ok_def
  by (simp add: distinct_dict_set list_all_dict_set tl_dict_set)

lemma store_ok_add:
  assumes "store_ok os (opts self)" and "entry_ok os k v" and "\<not> starts_sep k"
  shows "store_ok os (opts (add k v overwrite self))"
  using assms by (simp add: add_def store_ok_dict_set)

lemma no_delim_prefix: "CHR '':'' \<notin> set k \<Longrightarrow> no_delim (k @ s) = no_delim s"
  by (induction k) (auto simp: re_delim_def)

lemma addable_entry_ok: "addable os k v \<Longrightarrow> entry_ok os k v"
  by (auto simp: addable_def entry_ok_def plain_name_def plain_value_def no_delim_prefix re_delim_def)

lemma store_ok_fold_add:
  assumes "store_ok os (opts self)" and "\<forall>(k, v, ow) \<in> set ops. addable os k v"
  shows "store_ok os (opts (fold (\<lambda>(key, v, overwrite). add key v overwrite) ops self))"
  using assms
proof (induction ops arbitrary: self)
  case Nil
  then show ?case by simp
next
  case (Cons x ops)
  obtain k v ow where x: "x = (k, v, ow)" by (cases x)
  have "addable os k v" using Cons.prems x by simp
  then have "store_ok os (opts (add k v ow self))"
    using Cons.prems(1) by (intro store_ok_add addable_entry_ok) (simp_all add: addable_def plain_name_def)
  then show ?case using Cons x by simp
qed

text \<open>
  C1 (as amended). For a store populated only by calls of \<^verbatim>\<open>add\<close> whose names and
  values are as \<open>addable\<close> says, loading the string that \<^verbatim>\<open>options\<close> returns
  into a fresh store succeeds and yields the original store.
\<close>

theorem options_load_roundtrip:
  assumes "\<forall>(k, v, ow) \<in> set ops. addable os k v"
  shows "load_options os [key \<mapsto> options (populate ops)] key init = (populate ops, None)"
proof -
  have "store_ok os (opts init)" by (simp add: store_ok_def init_def)
  then have "store_ok os (opts (populate ops))"
    unfolding populate_def using assms by (rule store_ok_fold_add)
  then show ?thesis by (rule load_options_roundtrip)
qed

theorem options_load_roundtrip_witness:
  "load_options os_example
     [''K'' \<mapsto> options (populate [(''a'', ''1'', False), (''a'', ''2'', False), (''p'', ''C:/x'', True)])]
     ''K'' init
   = (\<lparr>opts = [(''a'', ''1''), (''p'', ''C:/x'')]\<rparr>, None)
   \<and> options (populate [(''a'', ''1'', False), (''a'', ''2'', False), (''p'', ''C:/x'', True)])
       = ''a=1:p=C:/x''"
  using options_load_roundtrip
    [of "[(''a'', ''1'', False), (''a'', ''2'', False), (''p'', ''C:/x'', True)]" os_example "''K''"]
  by (simp add: addable_def plain_name_def plain_value_def starts_sep_def is_path_sep_def
        re_delim_def populate_def add_def init_def options_def)

text \<open>
  C1 (as stated) fails: a value is any string, and the value \<^verbatim>\<open>a:b\<close> is cut at its
  colon when the string \<^verbatim>\<open>k=a:b\<close> is loaded; the piece \<^verbatim>\<open>b\<close> is skipped as
  malformed and the option \<^verbatim>\<open>k\<close> comes back as \<^verbatim>\<open>a\<close>.
\<close>

theorem options_load_roundtrip_counterexample:
  "map_of (opts (fst (load_options os_example
       [''K'' \<mapsto> options (populate [(''k'', ''a:b'', False)])] ''K'' init)))
   \<noteq> map_of (opts (populate [(''k'', ''a:b'', False)]))"
proof
  assume eq: "map_of (opts (fst (load_options os_example
       [''K'' \<mapsto> options (populate [(''k'', ''a:b'', False)])] ''K'' init)))
   = map_of (opts (populate [(''k'', ''a:b'', False)]))"
  have "map_of (opts (fst (load_options os_example
       [''K'' \<mapsto> options (populate [(''k'', ''a:b'', False)])] ''K'' init))) ''k'' = Some ''a''"
    by (simp add: populate_def add_def init_def options_def load_options_def re_delim_split_def
          re_delim_def is_path_sep_def unpack_option_def str_split_eq_def)
  moreover have "map_of (opts (populate [(''k'', ''a:b'', False)])) ''k'' = Some ''a:b''"
    by (simp add: populate_def add_def init_def)
  ultimately show False unfolding eq by simp
qed

section \<open>Loading an option string\<close>

text \<open>
  The loop of \<^verbatim>\<open>load_options\<close> leaves a token in one of three ways: the token is
  malformed and skipped, it names a suppressions file that does not exist and the loop
  ends with the IOError, or its option is stored and the loop goes on.
\<close>

lemma suppressions_values_Nil [simp]: "suppressions_values [] = []"
  by (simp add: suppressions_values_def map_filter_simps)

lemma suppressions_values_Cons:
  "suppressions_values (t # ts) =
     (case unpack_option t of
        Some (n, v) \<Rightarrow> if n = ''suppressions'' then v # suppressions_values ts
                       else suppressions_values ts
      | None \<Rightarrow> suppressions_values ts)"
  by (simp add: suppressions_values_def map_filter_simps split: option.splits)

lemma suppressions_values_append:
  "suppressions_values (ts @ us) = suppressions_values ts @ suppressions_values us"
  by (induction ts) (auto simp: suppressions_values_Cons split: option.splits)

lemma load_tokens_outcome:
  "snd (load_tokens os ts self) =
     (case find (\<lambda>v. \<not> isfile os (abspath os (expanduser os v))) (suppressions_values ts) of
        None \<Rightarrow> None
      | Some v \<Rightarrow> Some (IOError (abspath os (expanduser os v))))"
proof (induction ts arbitrary: self)
  case Nil
  then show ?case by simp
next
  case (Cons t ts)
  show ?case
  proof (cases "unpack_option t")
    case None
    then show ?thesis using Cons.IH by (simp add: suppressions_values_Cons)
  next
    case (Some nv)
    obtain n v where nv: "nv = (n, v)" by (cases nv)
    show ?thesis
      using Some nv Cons.IH by (simp add: suppressions_values_Cons Let_def)
  qed
qed


lemma load_tokens_Cons_cases:
  obtains
    (skip) "unpack_option t = None"
      and "load_tokens os (t # ts) self = load_tokens os ts self"
  | (fail) v where "unpack_option t = Some (''suppressions'', v)"
      and "\<not> isfile os (abspath os (expanduser os v))"
      and "load_tokens os (t # ts) self = (self, Some (IOError (abspath os (expanduser os v))))"
  | (store) n v w where "unpack_option t = Some (n, v)"
      and "w = (if n = ''suppressions'' then abspath os (expanduser os v) else v)"
      and "n = ''suppressions'' \<longrightarrow> isfile os w"
      and "load_tokens os (t # ts) self
             = load_tokens os ts (self\<lparr>opts := dict_set n w (opts self)\<rparr>)"
proof (cases "unpack_option t")
  case None
  then show ?thesis using skip by simp
next
  case (Some nv)
  obtain n v where nv: "nv = (n, v)" by (cases nv)
  show ?thesis
  proof (cases "n = ''suppressions'' \<and> \<not> isfile os (abspath os (expanduser os v))")
    case True
    then show ?thesis using Some nv fail [of v] by (simp add: Let_def)
  next
    case False
    then show ?thesis
      using Some nv store [of n v "if n = ''suppressions'' then abspath os (expanduser os v) else v"]
      by (auto simp: Let_def)
  qed
qed







text \<open>
  C8 (as amended). When the value of the key contains a space character,
  \<^verbatim>\<open>load_options\<close> fails with the AssertionError before it reads a token, and the store
  is as it was; when it contains no space character, no AssertionError is raised. Other
  white space is not looked at.
\<close>

theorem load_options_space_assertion:
  assumes "env key = Some s"
  shows "(CHR '' '' \<in> set s \<longrightarrow> load_options os env key self = (self, Some AssertionError))
       \<and> (CHR '' '' \<notin> set s \<longrightarrow> snd (load_options os env key self) \<noteq> Some AssertionError)"
  using assms
  by (simp add: load_options_def load_tokens_outcome split: option.splits)

theorem load_options_space_assertion_witness:
  "load_options os_example [''K'' \<mapsto> ''a=1 b=2''] ''K'' init = (init, Some AssertionError)
   \<and> snd (load_options os_example [''K'' \<mapsto> ''a=1:b=2''] ''K'' init) \<noteq> Some AssertionError"
  using load_options_space_assertion [of "[''K'' \<mapsto> ''a=1 b=2'']" "''K''" "''a=1 b=2''" os_example init]
    load_options_space_assertion [of "[''K'' \<mapsto> ''a=1:b=2'']" "''K''" "''a=1:b=2''" os_example init]
  by simp

text \<open>
  C8 (as stated) fails: the assertion tests for the space character only. The value
  \<^verbatim>\<open>a=1<TAB>b\<close> contains a tab, and the load returns with the option \<^verbatim>\<open>a\<close> set to
  \<^verbatim>\<open>1<TAB>b\<close>.
\<close>

theorem load_options_whitespace_counterexample:
  "CHR 0x09 \<in> set [CHR ''a'', CHR ''='', CHR ''1'', CHR 0x09, CHR ''b'']
   \<and> load_options os_example [''K'' \<mapsto> [CHR ''a'', CHR ''='', CHR ''1'', CHR 0x09, CHR ''b'']]
        ''K'' init
     = (\<lparr>opts = [(''a'', [CHR ''1'', CHR 0x09, CHR ''b''])]\<rparr>, None)"
  by (simp add: load_options_def re_delim_split_def re_delim_def is_path_sep_def
        unpack_option_def str_split_eq_def init_def)



section \<open>The prepared environment\<close>

text \<open>
  \<^verbatim>\<open>configure_sanitizers\<close> and the items of \<^verbatim>\<open>env_mod\<close> change no other variable
  than those they name.
\<close>

lemma set_symbolizer_frame:
  "x \<noteq> ''ASAN_SYMBOLIZER_PATH'' \<Longrightarrow> set_symbolizer os target_dir env x = env x"
  by (simp add: set_symbolizer_def Let_def)

lemma configure_sanitizers_frame:
  assumes "configure_sanitizers os env target_dir log_path = Inr env'"
    and "x \<notin> set sanitizer_variables"
  shows "env' x = env x"
proof -
  from assms(2) have x: "x \<noteq> ''ASAN_OPTIONS''" "x \<noteq> ''LSAN_OPTIONS''" "x \<noteq> ''UBSAN_OPTIONS''"
    "x \<noteq> ''ASAN_SYMBOLIZER_PATH''"
    by (auto simp: sanitizer_variables_def)
  from assms(1) obtain a l u where
    "env' = set_symbolizer os target_dir
       (env(''ASAN_OPTIONS'' \<mapsto> a, ''LSAN_OPTIONS'' \<mapsto> l, ''UBSAN_OPTIONS'' \<mapsto> u))"
    by (auto simp: configure_sanitizers_def Let_def split: prod.splits option.splits)
  then show ?thesis using x by (simp add: set_symbolizer_frame)
qed

lemma apply_env_mod_frame:
  "x \<notin> fst ` set m \<Longrightarrow> apply_env_mod m env x = env x"
  by (induction m env rule: apply_env_mod.induct) (auto split: option.splits)

text \<open>
  C9. Whenever \<^verbatim>\<open>prepare_environment\<close> returns an environment, a variable of the
  fixed table that \<^verbatim>\<open>env_mod\<close> does not name holds its constant there, whatever the
  input environment held; and each of \<^verbatim>\<open>MOZ_SKIA_DISABLE_ASSERTS\<close> and
  \<^verbatim>\<open>RUST_BACKTRACE\<close>, when \<^verbatim>\<open>env_mod\<close> does not name it, holds the value of the
  input environment if there is one and its default otherwise.
\<close>

theorem prepare_environment_toggles:
  assumes "prepare_environment os environ target_dir sanitizer_log env_mod = Inr env"
    and "\<forall>m. env_mod = Some m \<longrightarrow> name \<notin> fst ` set m"
  shows "((name, c) \<in> set fixed_toggles \<longrightarrow> env name = Some c)
       \<and> ((name, d) \<in> set default_toggles \<longrightarrow>
            env name = Some (case environ name of Some v \<Rightarrow> v | None \<Rightarrow> d))"
proof -
  define env0 where "env0 =
    (let env = environ;
         env = env(''G_SLICE'' \<mapsto> ''always-malloc'');
         env = env(''MOZ_CC_RUN_DURING_SHUTDOWN'' \<mapsto> ''1'');
         env = env(''MOZ_CRASHREPORTER'' \<mapsto> ''1'');
         env = env(''MOZ_CRASHREPORTER_NO_REPORT'' \<mapsto> ''1'');
         env = env(''MOZ_DISABLE_CONTENT_SANDBOX'' \<mapsto> ''1'');
         env = env(''MOZ_DISABLE_GMP_SANDBOX'' \<mapsto> ''1'');
         env = env(''MOZ_DISABLE_GPU_SANDBOX'' \<mapsto> ''1'');
         env = env(''MOZ_DISABLE_NPAPI_SANDBOX'' \<mapsto> ''1'');
         env = env(''MOZ_GDB_SLEEP'' \<mapsto> ''0'');
         env = env(''XRE_NO_WINDOWS_CRASH_DIALOG'' \<mapsto> ''1'');
         env = env(''XPCOM_DEBUG_BREAK'' \<mapsto> ''warn'');
         env = (if env ''MOZ_SKIA_DISABLE_ASSERTS'' = None
                then env(''MOZ_SKIA_DISABLE_ASSERTS'' \<mapsto> ''1'') else env);
         env = (if env ''RUST_BACKTRACE'' = None
                then env(''RUST_BACKTRACE'' \<mapsto> ''full'') else env)
     in env)"
  from assms(1) obtain env1 where
    conf: "configure_sanitizers os env0 target_dir sanitizer_log = Inr env1"
    and env: "env = (case env_mod of None \<Rightarrow> env1 | Some m \<Rightarrow> apply_env_mod m env1)"
    unfolding prepare_environment_def env0_def Let_def by (auto split: sum.splits)
  have mod: "env name = env1 name"
    unfolding env using assms(2) by (auto simp: apply_env_mod_frame split: option.splits)
  have fixed: "(name, c) \<in> set fixed_toggles \<longrightarrow> name \<notin> set sanitizer_variables \<and> env0 name = Some c"
    by (auto simp: fixed_toggles_def sanitizer_variables_def env0_def Let_def)
  have dflt: "(name, d) \<in> set default_toggles \<longrightarrow> name \<notin> set sanitizer_variables
      \<and> env0 name = Some (case environ name of Some v \<Rightarrow> v | None \<Rightarrow> d)"
    by (auto simp: default_toggles_def sanitizer_variables_def env0_def Let_def split: option.splits)
  show ?thesis
    using fixed dflt mod configure_sanitizers_frame [OF conf, of name] by auto
qed

theorem prepare_environment_toggles_witness:
  "(case prepare_environment os_example [''G_SLICE'' \<mapsto> ''debug-blocks'', ''RUST_BACKTRACE'' \<mapsto> ''1'']
           ''/firefox'' ''/tmp/log'' (Some [(''HOME'', None), (''LANG'', Some ''C'')]) of
      Inl e \<Rightarrow> False
    | Inr env \<Rightarrow>
        env ''G_SLICE'' = Some ''always-malloc''
        \<and> env ''RUST_BACKTRACE'' = Some ''1''
        \<and> env ''MOZ_SKIA_DISABLE_ASSERTS'' = Some ''1'')"
proof -
  let ?environ = "[''G_SLICE'' \<mapsto> ''debug-blocks'', ''RUST_BACKTRACE'' \<mapsto> ''1'']"
  let ?mod = "Some [(''HOME'', None), (''LANG'', Some ''C'')]"
  have "\<exists>env. prepare_environment os_example ?environ ''/firefox'' ''/tmp/log'' ?mod = Inr env"
    by (simp add: prepare_environment_def configure_sanitizers_def load_options_def Let_def)
  then obtain env where
    env: "prepare_environment os_example ?environ ''/firefox'' ''/tmp/log'' ?mod = Inr env"
    by blast
  have "env ''G_SLICE'' = Some ''always-malloc''"
    using prepare_environment_toggles [OF env, of "''G_SLICE''" "''always-malloc''"]
    by (simp add: fixed_toggles_def)
  moreover have "env ''RUST_BACKTRACE'' = Some ''1''"
    using prepare_environment_toggles [OF env, of "''RUST_BACKTRACE''" _ "''full''"]
    by (simp add: default_toggles_def)
  moreover have "env ''MOZ_SKIA_DISABLE_ASSERTS'' = Some ''1''"
    using prepare_environment_toggles [OF env, of "''MOZ_SKIA_DISABLE_ASSERTS''" _ "''1''"]
    by (simp add: default_toggles_def)
  ultimately show ?thesis by (simp add: env)
qed

section \<open>The sanitizer options of the prepared environment\<close>

text \<open>
  The tokens that the tokenizer returns hold no further place to cut at, and none but
  the first begins with a backslash, a pipe or a slash.
\<close>

lemma split_where_not_Nil: "split_where d cur s \<noteq> []"
  by (induction s arbitrary: cur) simp_all

lemma hd_split_where_Cons:
  "\<not> d x s \<Longrightarrow> hd (split_where d [] (x # s)) = x # hd (split_where d [] s)"
  using split_where_cur [of d "[x]" s] by simp

lemma tl_split_where_Cons:
  "\<not> d x s \<Longrightarrow> tl (split_where d [] (x # s)) = tl (split_where d [] s)"
  using split_where_cur [of d "[x]" s] by simp

lemma starts_sep_hd_split:
  "starts_sep s" if "starts_sep (hd (split_where d [] s))"
proof (cases s)
  case Nil
  then show ?thesis using that by simp
next
  case (Cons x s')
  show ?thesis
  proof (cases "d x s'")
    case True
    then show ?thesis using that Cons by (simp add: starts_sep_def)
  next
    case False
    then have "hd (split_where d [] s) = x # hd (split_where d [] s')"
      unfolding Cons by (rule hd_split_where_Cons)
    then show ?thesis using that Cons by (simp add: starts_sep_def)
  qed
qed

lemma re_delim_split_no_delim: "\<forall>t \<in> set (split_where re_delim [] s). no_delim t"
proof (induction s)
  case Nil
  then show ?case by simp
next
  case (Cons c cs)
  show ?case
  proof (cases "re_delim c cs")
    case True
    then show ?thesis using Cons by simp
  next
    case False
    let ?h = "hd (split_where re_delim [] cs)"
    have eq: "split_where re_delim [] (c # cs) = (c # ?h) # tl (split_where re_delim [] cs)"
      using False split_where_cur [of re_delim "[c]" cs] by simp
    have h: "no_delim ?h"
      using Cons split_where_not_Nil [of re_delim "[]" cs] by (simp add: hd_in_set)
    have rest: "\<forall>t \<in> set (tl (split_where re_delim [] cs)). no_delim t"
      using Cons by (meson list.set_sel(2) split_where_not_Nil)
    have "\<not> re_delim c ?h"
    proof (cases "c = CHR '':''")
      case True
      with False obtain x cs' where cs: "cs = x # cs'" and x: "is_path_sep x"
        by (auto simp: re_delim_def split: list.splits)
      then have "\<not> re_delim x cs'" by (auto simp: re_delim_def is_path_sep_def)
      then have "?h = x # hd (split_where re_delim [] cs')"
        unfolding cs by (rule hd_split_where_Cons)
      with x show ?thesis by (simp add: re_delim_def)
    next
      case False
      then show ?thesis by (simp add: re_delim_def)
    qed
    with h rest show ?thesis unfolding eq by simp
  qed
qed

lemma re_delim_split_tail: "\<forall>t \<in> set (tl (split_where re_delim [] s)). \<not> starts_sep t"
proof (induction s)
  case Nil
  then show ?case by simp
next
  case (Cons c cs)
  show ?case
  proof (cases "re_delim c cs")
    case True
    then have "\<not> starts_sep cs"
      by (auto simp: re_delim_def starts_sep_def split: list.splits)
    then have "\<not> starts_sep (hd (split_where re_delim [] cs))"
      using starts_sep_hd_split by blast
    moreover have "split_where re_delim [] cs
        = hd (split_where re_delim [] cs) # tl (split_where re_delim [] cs)"
      using split_where_not_Nil [of re_delim "[]" cs] by simp
    ultimately have "\<forall>t \<in> set (split_where re_delim [] cs). \<not> starts_sep t"
      using Cons by (metis set_ConsD)
    then show ?thesis using True by simp
  next
    case False
    then have "tl (split_where re_delim [] (c # cs)) = tl (split_where re_delim [] cs)"
      by (rule tl_split_where_Cons)
    then show ?thesis using Cons by (simp del: split_where.simps)
  qed
qed

lemma split_where_chars: "t \<in> set (split_where d cur s) \<Longrightarrow> set t \<subseteq> set cur \<union> set s"
  by (induction s arbitrary: cur) (fastforce split: if_splits)+

lemma split_char_join: "str_join [x] (split_where (\<lambda>c _. c = x) cur s) = cur @ s"
proof (induction s arbitrary: cur)
  case Nil
  then show ?case by simp
next
  case (Cons c s)
  show ?case
  proof (cases "c = x")
    case True
    obtain p ps where "split_where (\<lambda>c _. c = x) [] s = p # ps"
      using split_where_not_Nil [of _ "[]" s] by (cases "split_where (\<lambda>c _. c = x) [] s") auto
    then show ?thesis using True Cons [of "[]"] by simp
  next
    case False
    then show ?thesis using Cons by simp
  qed
qed

lemma split_char_pieces:
  "x \<notin> set cur \<Longrightarrow> p \<in> set (split_where (\<lambda>c _. c = x) cur s) \<Longrightarrow> x \<notin> set p"
  by (induction s arbitrary: cur) (fastforce split: if_splits)+

lemma unpack_option_SomeD:
  assumes "unpack_option t = Some (n, v)"
  shows "t = n @ CHR ''='' # v \<and> CHR ''='' \<notin> set n \<and> CHR ''='' \<notin> set v"
proof -
  from assms have split: "str_split_eq t = [n, v]"
    by (auto simp: unpack_option_def split: list.splits)
  have "str_join ''='' (str_split_eq t) = t"
    unfolding str_split_eq_def using split_char_join [of "CHR ''=''" "[]" t] by simp
  moreover have "\<forall>p \<in> set (str_split_eq t). CHR ''='' \<notin> set p"
    unfolding str_split_eq_def using split_char_pieces [of "CHR ''=''" "[]" _ t] by simp
  ultimately show ?thesis unfolding split by simp
qed

text \<open>
  So the store that \<^verbatim>\<open>load_options\<close> builds from an option string can be written
  out and read back, provided the normalized suppressions paths can.
\<close>

lemma no_delim_snoc: "no_delim s \<Longrightarrow> q \<noteq> CHR '':'' \<Longrightarrow> no_delim (s @ [q])"
proof (induction s)
  case Nil
  then show ?case by (simp add: re_delim_def)
next
  case (Cons c s)
  then show ?case by (cases s) (auto simp: re_delim_def)
qed

lemma plain_value_quoted: "plain_value s \<Longrightarrow> plain_value (quoted s)"
  using no_delim_snoc [of s "CHR 0x27"]
  by (auto simp: plain_value_def quoted_def re_delim_def)

lemma plain_entry_ok:
  assumes "CHR '':'' \<notin> set k" "CHR ''='' \<notin> set k" "CHR '' '' \<notin> set k"
    and "k \<noteq> ''suppressions''" and "plain_value v"
  shows "entry_ok os k v"
  using assms by (auto simp: entry_ok_def plain_value_def no_delim_prefix re_delim_def)

lemma token_entry_ok:
  assumes "unpack_option t = Some (n, v)" and "no_delim t" and "CHR '' '' \<notin> set t"
    and "w = (if n = ''suppressions'' then abspath os (expanduser os v) else v)"
    and "n = ''suppressions'' \<longrightarrow> isfile os w \<and> normal_path os w"
  shows "entry_ok os n w"
proof -
  from unpack_option_SomeD [OF assms(1)]
  have t: "t = n @ CHR ''='' # v" and n: "CHR ''='' \<notin> set n" and v: "CHR ''='' \<notin> set v"
    by simp_all
  show ?thesis
  proof (cases "n = ''suppressions''")
    case True
    with assms(5) have "isfile os w" "plain_value w" "abspath os (expanduser os w) = w"
      by (simp_all add: normal_path_def)
    then show ?thesis
      using True no_delim_prefix [of "''suppressions''" "CHR ''='' # w"]
      by (simp add: entry_ok_def plain_value_def re_delim_def)
  next
    case False
    then show ?thesis
      using assms(2,3,4) t n v by (simp add: entry_ok_def)
  qed
qed

lemma token_name_start:
  assumes "unpack_option t = Some (n, v)" and "\<not> starts_sep t"
  shows "\<not> starts_sep n"
  using unpack_option_SomeD [OF assms(1)] assms(2)
  by (cases n) (auto simp: starts_sep_def)

lemma load_tokens_store_ok:
  assumes "load_tokens os ts self = (self', None)"
    and "store_ok os (opts self)"
    and "\<forall>t \<in> set ts. no_delim t \<and> CHR '' '' \<notin> set t \<and> \<not> starts_sep t"
    and "\<forall>v \<in> set (suppressions_values ts). normal_path os (abspath os (expanduser os v))"
  shows "store_ok os (opts self')"
  using assms
proof (induction ts arbitrary: self)
  case Nil
  then show ?case by simp
next
  case (Cons t ts)
  show ?case
  proof (cases t os ts self rule: load_tokens_Cons_cases)
    case skip
    then show ?thesis using Cons by (simp add: suppressions_values_Cons)
  next
    case (fail v)
    then show ?thesis using Cons.prems(1) by simp
  next
    case (store n v w)
    have t: "no_delim t" "CHR '' '' \<notin> set t" "\<not> starts_sep t"
      using Cons.prems(3) by simp_all
    have supp: "n = ''suppressions'' \<longrightarrow> isfile os w \<and> normal_path os w"
      using store(1,2,3) Cons.prems(4) by (simp add: suppressions_values_Cons)
    have "entry_ok os n w"
      using store(1) t(1,2) store(2) supp by (rule token_entry_ok)
    moreover have "\<not> starts_sep n" using store(1) t(3) by (rule token_name_start)
    ultimately have ok: "store_ok os (opts (self\<lparr>opts := dict_set n w (opts self)\<rparr>))"
      using Cons.prems(2) by (simp add: store_ok_dict_set)
    have rest: "\<forall>v \<in> set (suppressions_values ts). normal_path os (abspath os (expanduser os v))"
      using Cons.prems(4) store(1) by (auto simp: suppressions_values_Cons split: if_splits)
    show ?thesis
      using Cons.IH [OF _ ok _ rest] Cons.prems(1,3) store(4) by simp
  qed
qed

lemma load_options_store_ok:
  assumes "load_options os env key init = (self', None)"
    and "\<forall>s. env key = Some s \<longrightarrow>
           (\<forall>v \<in> set (suppressions_values (re_delim_split s)).
               normal_path os (abspath os (expanduser os v)))"
  shows "store_ok os (opts self')"
proof (cases "env key")
  case None
  then show ?thesis using assms(1) by (auto simp: load_options_def store_ok_def init_def)
next
  case (Some s)
  have nospace: "CHR '' '' \<notin> set s"
    and load0: "load_tokens os (re_delim_split s) init = (self', None)"
    using assms(1) Some by (auto simp: load_options_def split: if_splits)
  obtain t ts where ts: "split_where re_delim [] s = t # ts"
    using split_where_not_Nil [of re_delim "[]" s] by (cases "split_where re_delim [] s") auto
  have load: "load_tokens os (t # ts) init = (self', None)"
    using load0 unfolding re_delim_split_def ts .
  have nd: "\<forall>u \<in> set (t # ts). no_delim u"
    using re_delim_split_no_delim [of s] unfolding ts .
  have sp: "\<forall>u \<in> set (t # ts). CHR '' '' \<notin> set u"
  proof
    fix u assume "u \<in> set (t # ts)"
    then have "u \<in> set (split_where re_delim [] s)" unfolding ts .
    then have "set u \<subseteq> set [] \<union> set s" by (rule split_where_chars)
    with nospace show "CHR '' '' \<notin> set u" by auto
  qed
  have tail: "\<forall>u \<in> set ts. \<not> starts_sep u"
    using re_delim_split_tail [of s] unfolding ts by simp
  have supp: "\<forall>v \<in> set (suppressions_values (t # ts)). normal_path os (abspath os (expanduser os v))"
    using assms(2) [rule_format, OF Some] unfolding re_delim_split_def ts by blast
  have init: "store_ok os (opts init)" by (simp add: store_ok_def init_def)
  have rest: "\<forall>u \<in> set ts. no_delim u \<and> CHR '' '' \<notin> set u \<and> \<not> starts_sep u"
    using nd sp tail by simp
  show ?thesis
  proof (cases t os ts init rule: load_tokens_Cons_cases)
    case skip
    have l: "load_tokens os ts init = (self', None)" using load unfolding skip(2) .
    have sv: "\<forall>v \<in> set (suppressions_values ts). normal_path os (abspath os (expanduser os v))"
      using supp skip(1) by (simp add: suppressions_values_Cons)
    show ?thesis by (rule load_tokens_store_ok [OF l init rest sv])
  next
    case (fail v)
    then show ?thesis using load by (simp del: load_tokens.simps)
  next
    case (store n v w)
    have "n = ''suppressions'' \<longrightarrow> isfile os w \<and> normal_path os w"
      using store(1,2,3) supp by (simp add: suppressions_values_Cons)
    then have "entry_ok os n w"
      using store(1,2) nd sp by (intro token_entry_ok [of t n v]) simp_all
    then have ok: "store_ok os (opts (init\<lparr>opts := dict_set n w (opts init)\<rparr>))"
      by (simp add: store_ok_def init_def)
    have sv: "\<forall>v \<in> set (suppressions_values ts). normal_path os (abspath os (expanduser os v))"
      using supp store(1) by (auto simp: suppressions_values_Cons split: if_splits)
    have l: "load_tokens os ts (init\<lparr>opts := dict_set n w (opts init)\<rparr>) = (self', None)"
      using load unfolding store(4) .
    show ?thesis by (rule load_tokens_store_ok [OF l ok rest sv])
  qed
qed

text \<open>
  The options added by \<^verbatim>\<open>configure_sanitizers\<close> keep the store well formed, and
  \<^verbatim>\<open>log_path\<close> is set to the quoted prefix whatever the store held.
\<close>

lemma lookup_add_other:
  "k' \<noteq> k \<Longrightarrow> map_of (opts (add k v ow self)) k' = map_of (opts self) k'"
  by (simp add: add_def map_of_dict_set)

lemma lookup_add_overwrite: "map_of (opts (add k v True self)) k = Some v"
  by (simp add: add_def map_of_dict_set)

lemma asan_defaults_store_ok:
  assumes "store_ok os (opts self)" and "plain_value log_path"
  shows "store_ok os (opts (asan_defaults log_path self))"
  unfolding asan_defaults_def Let_def using assms
  by (intro store_ok_add plain_entry_ok plain_value_quoted)
     (simp_all add: plain_value_def starts_sep_def is_path_sep_def re_delim_def)

lemma asan_defaults_log_path:
  "map_of (opts (asan_defaults log_path self)) ''log_path'' = Some (quoted log_path)"
  by (simp add: asan_defaults_def Let_def lookup_add_other lookup_add_overwrite)

lemma ubsan_defaults_store_ok:
  assumes "store_ok os (opts self)" and "plain_value log_path"
  shows "store_ok os (opts (ubsan_defaults log_path self))"
  unfolding ubsan_defaults_def Let_def using assms
  by (intro store_ok_add plain_entry_ok plain_value_quoted)
     (simp_all add: plain_value_def starts_sep_def is_path_sep_def re_delim_def)

lemma ubsan_defaults_log_path:
  "map_of (opts (ubsan_defaults log_path self)) ''log_path'' = Some (quoted log_path)"
  by (simp add: ubsan_defaults_def Let_def lookup_add_other lookup_add_overwrite)

lemma load_options_cong:
  "env key = env' key \<Longrightarrow> load_options os env key self = load_options os env' key self"
  by (simp add: load_options_def)

lemma configure_sanitizers_options:
  assumes "configure_sanitizers os env target_dir log_path = Inr env'"
  obtains asan ubsan where
    "load_options os env ''ASAN_OPTIONS'' init = (asan, None)"
    "env' ''ASAN_OPTIONS'' = Some (options (asan_defaults log_path asan))"
    "load_options os env ''UBSAN_OPTIONS'' init = (ubsan, None)"
    "env' ''UBSAN_OPTIONS'' = Some (options (ubsan_defaults log_path ubsan))"
proof -
  from assms obtain asan lsan ubsan where
    a: "load_options os env ''ASAN_OPTIONS'' init = (asan, None)"
    and u: "load_options os
        (env(''ASAN_OPTIONS'' \<mapsto> options (asan_defaults log_path asan),
             ''LSAN_OPTIONS'' \<mapsto> options (lsan_defaults lsan)))
        ''UBSAN_OPTIONS'' init = (ubsan, None)"
    and e: "env' = set_symbolizer os target_dir
        (env(''ASAN_OPTIONS'' \<mapsto> options (asan_defaults log_path asan),
             ''LSAN_OPTIONS'' \<mapsto> options (lsan_defaults lsan),
             ''UBSAN_OPTIONS'' \<mapsto> options (ubsan_defaults log_path ubsan)))"
    by (auto simp: configure_sanitizers_def Let_def split: prod.splits option.splits)
  have "load_options os env ''UBSAN_OPTIONS'' init = (ubsan, None)"
    using u load_options_cong [of env "''UBSAN_OPTIONS''"
        "env(''ASAN_OPTIONS'' \<mapsto> options (asan_defaults log_path asan),
             ''LSAN_OPTIONS'' \<mapsto> options (lsan_defaults lsan))" os init]
    by simp
  moreover have "env' ''ASAN_OPTIONS'' = Some (options (asan_defaults log_path asan))"
    and "env' ''UBSAN_OPTIONS'' = Some (options (ubsan_defaults log_path ubsan))"
    unfolding e by (simp_all add: set_symbolizer_frame)
  ultimately show ?thesis using a that by blast
qed

lemma prepare_environment_configure:
  assumes "prepare_environment os environ target_dir sanitizer_log None = Inr env"
  obtains env0 where "configure_sanitizers os env0 target_dir sanitizer_log = Inr env"
    and "env0 ''ASAN_OPTIONS'' = environ ''ASAN_OPTIONS''"
    and "env0 ''UBSAN_OPTIONS'' = environ ''UBSAN_OPTIONS''"
  using assms unfolding prepare_environment_def Let_def by (auto split: sum.splits)

lemma configure_sanitizers_log_path:
  assumes conf: "configure_sanitizers os env0 target_dir log_path = Inr env"
    and key: "key = ''ASAN_OPTIONS'' \<or> key = ''UBSAN_OPTIONS''"
    and plain: "plain_value log_path"
    and supp: "\<forall>s. env0 key = Some s \<longrightarrow>
           (\<forall>v \<in> set (suppressions_values (re_delim_split s)).
               normal_path os (abspath os (expanduser os v)))"
  shows "\<exists>self. env key = Some (options self)
           \<and> load_options os env key init = (self, None)
           \<and> map_of (opts self) ''log_path'' = Some (quoted log_path)"
proof -
  from conf obtain asan ubsan where
    a: "load_options os env0 ''ASAN_OPTIONS'' init = (asan, None)"
      "env ''ASAN_OPTIONS'' = Some (options (asan_defaults log_path asan))"
    and u: "load_options os env0 ''UBSAN_OPTIONS'' init = (ubsan, None)"
      "env ''UBSAN_OPTIONS'' = Some (options (ubsan_defaults log_path ubsan))"
    by (rule configure_sanitizers_options)
  from key show ?thesis
  proof
    assume k: "key = ''ASAN_OPTIONS''"
    let ?self = "asan_defaults log_path asan"
    have "load_options os env0 key init = (asan, None)" using a(1) k by simp
    then have "store_ok os (opts asan)"
      using supp by (rule load_options_store_ok)
    then have ok: "store_ok os (opts ?self)"
      using plain by (rule asan_defaults_store_ok)
    have "load_options os env key init = load_options os [key \<mapsto> options ?self] key init"
      using a(2) k by (intro load_options_cong) simp
    also have "\<dots> = (?self, None)"
      using ok by (rule load_options_roundtrip)
    finally show ?thesis
      using a(2) k asan_defaults_log_path by blast
  next
    assume k: "key = ''UBSAN_OPTIONS''"
    let ?self = "ubsan_defaults log_path ubsan"
    have "load_options os env0 key init = (ubsan, None)" using u(1) k by simp
    then have "store_ok os (opts ubsan)"
      using supp by (rule load_options_store_ok)
    then have ok: "store_ok os (opts ?self)"
      using plain by (rule ubsan_defaults_store_ok)
    have "load_options os env key init = load_options os [key \<mapsto> options ?self] key init"
      using u(2) k by (intro load_options_cong) simp
    also have "\<dots> = (?self, None)"
      using ok by (rule load_options_roundtrip)
    finally show ?thesis
      using u(2) k ubsan_defaults_log_path by blast
  qed
qed

text \<open>
  C3 (as amended). Let \<^verbatim>\<open>prepare_environment\<close> return an environment for
  \<^verbatim>\<open>env_mod = None\<close>, let the prefix \<^verbatim>\<open>sanitizer_log\<close> be a plain value (no equals
  sign, no space, no colon but those immediately followed by a backslash, a pipe or a
  slash), and let the suppressions paths of the input value of the variable, once
  normalized, be normal paths. Then for each of \<^verbatim>\<open>ASAN_OPTIONS\<close> and
  \<^verbatim>\<open>UBSAN_OPTIONS\<close> the resulting value is the option string of a store, loading it
  into a fresh store succeeds and gives that store back, and its option
  \<^verbatim>\<open>log_path\<close> is the prefix between single quotes, whatever \<^verbatim>\<open>log_path\<close> the
  input environment had set.
\<close>

theorem prepare_environment_log_path:
  assumes "prepare_environment os environ target_dir sanitizer_log None = Inr env"
    and "key = ''ASAN_OPTIONS'' \<or> key = ''UBSAN_OPTIONS''"
    and "plain_value sanitizer_log"
    and "\<forall>s. environ key = Some s \<longrightarrow>
           (\<forall>v \<in> set (suppressions_values (re_delim_split s)).
               normal_path os (abspath os (expanduser os v)))"
  shows "\<exists>self. env key = Some (options self)
           \<and> load_options os env key init = (self, None)
           \<and> map_of (opts self) ''log_path'' = Some (quoted sanitizer_log)"
proof -
  from assms(1) obtain env0 where
    conf: "configure_sanitizers os env0 target_dir sanitizer_log = Inr env"
    and env0: "env0 ''ASAN_OPTIONS'' = environ ''ASAN_OPTIONS''"
      "env0 ''UBSAN_OPTIONS'' = environ ''UBSAN_OPTIONS''"
    by (rule prepare_environment_configure)
  have "env0 key = environ key" using assms(2) env0 by auto
  then have "\<forall>s. env0 key = Some s \<longrightarrow>
      (\<forall>v \<in> set (suppressions_values (re_delim_split s)).
          normal_path os (abspath os (expanduser os v)))"
    using assms(4) by simp
  with conf assms(2,3) show ?thesis by (rule configure_sanitizers_log_path)
qed

theorem prepare_environment_log_path_witness:
  "(case prepare_environment os_example
           [''ASAN_OPTIONS'' \<mapsto> ''log_path=/elsewhere:detect_leaks=true'',
            ''UBSAN_OPTIONS'' \<mapsto> ''log_path=other'']
           ''/firefox'' ''/tmp/log'' None of
      Inl e \<Rightarrow> False
    | Inr env \<Rightarrow>
        map_of (opts (fst (load_options os_example env ''ASAN_OPTIONS'' init))) ''log_path''
          = Some (quoted ''/tmp/log'')
        \<and> map_of (opts (fst (load_options os_example env ''UBSAN_OPTIONS'' init))) ''log_path''
          = Some (quoted ''/tmp/log''))"
proof -
  let ?environ = "[''ASAN_OPTIONS'' \<mapsto> ''log_path=/elsewhere:detect_leaks=true'',
            ''UBSAN_OPTIONS'' \<mapsto> ''log_path=other'']"
  have "\<exists>env. prepare_environment os_example ?environ ''/firefox'' ''/tmp/log'' None = Inr env"
    by (simp add: prepare_environment_def configure_sanitizers_def Let_def load_options_def
          re_delim_split_def re_delim_def is_path_sep_def unpack_option_def str_split_eq_def)
  then obtain env where
    env: "prepare_environment os_example ?environ ''/firefox'' ''/tmp/log'' None = Inr env"
    by blast
  have plain: "plain_value ''/tmp/log''"
    by (simp add: plain_value_def re_delim_def)
  have sa: "\<forall>s. ?environ ''ASAN_OPTIONS'' = Some s \<longrightarrow>
      (\<forall>v \<in> set (suppressions_values (re_delim_split s)).
          normal_path os_example (abspath os_example (expanduser os_example v)))"
    by (simp add: re_delim_split_def re_delim_def is_path_sep_def suppressions_values_Cons
          unpack_option_def str_split_eq_def)
  have su: "\<forall>s. ?environ ''UBSAN_OPTIONS'' = Some s \<longrightarrow>
      (\<forall>v \<in> set (suppressions_values (re_delim_split s)).
          normal_path os_example (abspath os_example (expanduser os_example v)))"
    by (simp add: re_delim_split_def re_delim_def is_path_sep_def suppressions_values_Cons
          unpack_option_def str_split_eq_def)
  note asan = prepare_environment_log_path [where key = "''ASAN_OPTIONS''", OF env]
  note ubsan = prepare_environment_log_path [where key = "''UBSAN_OPTIONS''", OF env]
  have "\<exists>self. load_options os_example env ''ASAN_OPTIONS'' init = (self, None)
      \<and> map_of (opts self) ''log_path'' = Some (quoted ''/tmp/log'')"
    using asan [OF _ plain sa] by blast
  then have a: "map_of (opts (fst (load_options os_example env ''ASAN_OPTIONS'' init))) ''log_path''
      = Some (quoted ''/tmp/log'')"
    by auto
  have "\<exists>self. load_options os_example env ''UBSAN_OPTIONS'' init = (self, None)
      \<and> map_of (opts self) ''log_path'' = Some (quoted ''/tmp/log'')"
    using ubsan [OF _ plain su] by blast
  then have u: "map_of (opts (fst (load_options os_example env ''UBSAN_OPTIONS'' init))) ''log_path''
      = Some (quoted ''/tmp/log'')"
    by auto
  show ?thesis unfolding env using a u by simp
qed

text \<open>
  C3 (as stated) fails: the option is set to \<^verbatim>\<open>"'%s'" % log_path\<close>. From the empty
  environment and the prefix \<^verbatim>\<open>log\<close>, the option \<^verbatim>\<open>log_path\<close> read back from
  \<^verbatim>\<open>ASAN_OPTIONS\<close> is \<^verbatim>\<open>'log'\<close>, quotes included, and not the prefix itself.
\<close>

theorem prepare_environment_log_path_counterexample:
  "(case prepare_environment os_example Map.empty ''/firefox'' ''log'' None of
      Inl e \<Rightarrow> False
    | Inr env \<Rightarrow>
        map_of (opts (fst (load_options os_example env ''ASAN_OPTIONS'' init))) ''log_path''
          = Some (quoted ''log'')
        \<and> map_of (opts (fst (load_options os_example env ''ASAN_OPTIONS'' init))) ''log_path''
          \<noteq> Some ''log'')"
proof -
  have "\<exists>env. prepare_environment os_example Map.empty ''/firefox'' ''log'' None = Inr env"
    by (simp add: prepare_environment_def configure_sanitizers_def Let_def load_options_def)
  then obtain env where
    env: "prepare_environment os_example Map.empty ''/firefox'' ''log'' None = Inr env"
    by blast
  then obtain env0 where
    conf: "configure_sanitizers os_example env0 ''/firefox'' ''log'' = Inr env"
    and env0: "env0 ''ASAN_OPTIONS'' = Map.empty ''ASAN_OPTIONS''"
    by (rule prepare_environment_configure)
  have plain: "plain_value ''log''"
    by (simp add: plain_value_def re_delim_def)
  have "\<exists>self. env ''ASAN_OPTIONS'' = Some (options self)
      \<and> load_options os_example env ''ASAN_OPTIONS'' init = (self, None)
      \<and> map_of (opts self) ''log_path'' = Some (quoted ''log'')"
    using conf _ plain by (rule configure_sanitizers_log_path) (simp_all add: env0)
  then have "map_of (opts (fst (load_options os_example env ''ASAN_OPTIONS'' init))) ''log_path''
      = Some (quoted ''log'')"
    by auto
  then show ?thesis unfolding env by (simp add: quoted_def)
qed

end
